theory Spec2Isabelle
  imports Main
begin

section \<open>Paths\<close>

text \<open>
  A \<^verbatim>\<open>pathlib.Path\<close> is its anchor (drive and root: \<open>''/''\<close> for an absolute POSIX
  path, empty for a relative one) and the list of components after the anchor.
\<close>

record path =
  anchor :: string
  tail :: "string list"

text \<open>\<^verbatim>\<open>p / name\<close> for a single component.\<close>

definition joinpath :: "path \<Rightarrow> string \<Rightarrow> path" where
  "joinpath p n = p\<lparr>tail := tail p @ [n]\<rparr>"

text \<open>\<^verbatim>\<open>p.name\<close>: the last component, the empty string when there is none.\<close>

definition name :: "path \<Rightarrow> string" where
  "name p = (if tail p = [] then [] else last (tail p))"

text \<open>\<^verbatim>\<open>Path(s)\<close> for a string without separator: the empty string gives the
  path without components.\<close>

definition Path :: "string \<Rightarrow> path" where
  "Path s = \<lparr>anchor = [], tail = (if s = [] then [] else [s])\<rparr>"

text \<open>\<^verbatim>\<open>p / rel\<close> for a relative path \<open>rel\<close>.\<close>

definition joinrel :: "path \<Rightarrow> path \<Rightarrow> path" where
  "joinrel p rel = p\<lparr>tail := tail p @ tail rel\<rparr>"

datatype error =
    SourceNotDirectory    \<comment> \<open>\<^verbatim>\<open>ValueError(f"Source is not a directory: {source}")\<close>\<close>
  | NoFilesToBackUp       \<comment> \<open>\<^verbatim>\<open>ValueError("No files to back up")\<close>\<close>
  | UnknownCompression string  \<comment> \<open>\<^verbatim>\<open>ValueError(f"Unknown compression kind: {kind}")\<close>\<close>
  | NotInSubpath          \<comment> \<open>the \<^verbatim>\<open>ValueError\<close> of \<^verbatim>\<open>Path.relative_to\<close>\<close>
  | OSError               \<comment> \<open>raised by \<^verbatim>\<open>mkdir\<close> or \<^verbatim>\<open>open\<close>\<close>

text \<open>
  \<^verbatim>\<open>p.relative_to(other)\<close>: \<open>other\<close> must have the anchor of \<open>p\<close> and its components
  must be a prefix of those of \<open>p\<close>; otherwise pathlib raises \<^verbatim>\<open>ValueError\<close>.
\<close>

definition relative_to :: "path \<Rightarrow> path \<Rightarrow> error + path" where
  "relative_to p other =
     (if anchor p = anchor other \<and> take (length (tail other)) (tail p) = tail other
      then Inr \<lparr>anchor = [], tail = drop (length (tail other)) (tail p)\<rparr>
      else Inl NotInSubpath)"

fun sep_join :: "char \<Rightarrow> string list \<Rightarrow> string" where
  "sep_join c [] = []"
| "sep_join c [x] = x"
| "sep_join c (x # y # ys) = x @ c # sep_join c (y # ys)"

text \<open>\<^verbatim>\<open>str(p)\<close> on a host whose separator is \<open>s\<close>.\<close>

definition str_path :: "char \<Rightarrow> path \<Rightarrow> string" where
  "str_path s p =
     (if anchor p = [] \<and> tail p = [] then ''.'' else anchor p @ sep_join s (tail p))"

text \<open>\<^verbatim>\<open>s.replace("\\", "/")\<close>; the backslash is character \<open>0x5C\<close>.\<close>

definition replace_backslash :: "string \<Rightarrow> string" where
  "replace_backslash s = map (\<lambda>c. if c = CHR 0x5C then CHR ''/'' else c) s"

section \<open>The host: file system, clock and path resolution\<close>

text \<open>
  A directory entry that is not a directory carries what \<^verbatim>\<open>p.stat()\<close> gives
  (\<open>None\<close> when it raises, otherwise \<^verbatim>\<open>st_size\<close>) and what \<^verbatim>\<open>p.is_file()\<close>
  answers. A directory carries its listing, in the order \<^verbatim>\<open>os.walk\<close> reports it.
  A symbolic link to a directory is listed by \<^verbatim>\<open>os.walk\<close> among the directories
  and never descended into, so it contributes nothing and is left out.
\<close>

datatype node = File "nat option" bool | Dir "(string \<times> node) list"

record host =
  sep :: char                         \<comment> \<open>\<^verbatim>\<open>os.sep\<close>\<close>
  resolve :: "path \<Rightarrow> path"            \<comment> \<open>\<^verbatim>\<open>Path.resolve\<close>: absolute, links followed\<close>
  node_at :: "path \<Rightarrow> node option"     \<comment> \<open>what the file system holds at a path\<close>
  mkdir_ok :: "path \<Rightarrow> bool"           \<comment> \<open>whether \<^verbatim>\<open>mkdir(parents=True, exist_ok=True)\<close> succeeds\<close>
  open_rb :: "path \<Rightarrow> nat option"      \<comment> \<open>write pass: \<open>None\<close> when \<^verbatim>\<open>open("rb")\<close> raises,
                                          otherwise the number of bytes the file delivers\<close>
  timestamp :: string                 \<comment> \<open>\<^verbatim>\<open>datetime.now().strftime("%Y%m%d-%H%M%S")\<close>\<close>

definition is_dir :: "host \<Rightarrow> path \<Rightarrow> bool" where
  "is_dir h p = (case node_at h p of Some (Dir es) \<Rightarrow> True | _ \<Rightarrow> False)"

section \<open>Tree scanner\<close>

type_synonym fname = "string \<times> nat option \<times> bool"

fun nondirs :: "(string \<times> node) list \<Rightarrow> fname list" where
  "nondirs [] = []"
| "nondirs ((n, File st isf) # es) = (n, st, isf) # nondirs es"
| "nondirs ((n, Dir sub) # es) = nondirs es"

text \<open>
  \<^verbatim>\<open>os.walk(root)\<close>, top-down, together with the loop's first statement
  \<^verbatim>\<open>dirs[:] = [d for d in dirs if d not in excludes]\<close>, which steers the generator:
  a directory is reported with its non-directory names, then each remaining
  subdirectory is walked in listing order. The result is the sequence of
  \<open>(r, fnames)\<close> the loop body sees.
\<close>

fun walk :: "string set \<Rightarrow> path \<Rightarrow> (string \<times> node) list \<Rightarrow> (path \<times> fname list) list"
and walk_dirs :: "string set \<Rightarrow> path \<Rightarrow> (string \<times> node) list \<Rightarrow> (path \<times> fname list) list" where
  "walk excludes r es = (r, nondirs es) # walk_dirs excludes r es"
| "walk_dirs excludes r [] = []"
| "walk_dirs excludes r ((d, File st isf) # es) = walk_dirs excludes r es"
| "walk_dirs excludes r ((d, Dir sub) # es) =
     (if d \<in> excludes then [] else walk excludes (joinpath r d) sub) @ walk_dirs excludes r es"

text \<open>\<^verbatim>\<open>os.walk\<close> on a path that is no directory yields nothing (its errors are ignored).\<close>

definition os_walk :: "host \<Rightarrow> path \<Rightarrow> string set \<Rightarrow> (path \<times> fname list) list" where
  "os_walk h r excludes =
     (case node_at h r of Some (Dir es) \<Rightarrow> walk excludes r es | _ \<Rightarrow> [])"

text \<open>The inner loop \<^verbatim>\<open>for name in fnames\<close>, on the pair \<open>(files, tot)\<close>.\<close>

fun scan_names :: "path \<Rightarrow> fname list \<Rightarrow> path list \<times> nat \<Rightarrow> path list \<times> nat" where
  "scan_names base [] acc = acc"
| "scan_names base ((n, st, isf) # rest) (files, tot) =
     (case st of
        None \<Rightarrow> scan_names base rest (files, tot)
      | Some st_size \<Rightarrow>
          if isf then scan_names base rest (files @ [joinpath base n], tot + st_size)
          else scan_names base rest (files, tot))"

text \<open>The outer loop \<^verbatim>\<open>for r, dirs, fnames in os.walk(root)\<close>.\<close>

fun scan_dirs :: "(path \<times> fname list) list \<Rightarrow> path list \<times> nat \<Rightarrow> path list \<times> nat" where
  "scan_dirs [] acc = acc"
| "scan_dirs ((r, fnames) # rest) acc = scan_dirs rest (scan_names r fnames acc)"

definition iter_files_with_size :: "host \<Rightarrow> path \<Rightarrow> string set \<Rightarrow> path list \<times> nat" where
  "iter_files_with_size h root excludes =
     (let root' = resolve h root
      in scan_dirs (os_walk h root' excludes) ([], 0))"

section \<open>Compression selection\<close>

datatype compression = ZIP_STORED | ZIP_DEFLATED

definition compression_from_args ::
    "string \<Rightarrow> int option \<Rightarrow> error + (compression \<times> int option)" where
  "compression_from_args kind level =
     (if kind = ''store'' then Inr (ZIP_STORED, None)
      else if kind = ''deflate'' then
        Inr (ZIP_DEFLATED, Some (case level of Some l \<Rightarrow> l | None \<Rightarrow> 1))
      else Inl (UnknownCompression kind))"

section \<open>Archive writer\<close>

text \<open>
  What a run does to the outside world, in order. An entry opened with
  \<^verbatim>\<open>zf.open(name, mode="w")\<close> takes the compression type and level of its
  \<^verbatim>\<open>ZipFile\<close>. The elapsed time passed to the callback is a clock reading and is
  not kept.
\<close>

datatype action =
    Mkdir path                                 \<comment> \<open>\<^verbatim>\<open>dest_dir.mkdir(...)\<close>\<close>
  | Scan path                                  \<comment> \<open>\<^verbatim>\<open>iter_files_with_size(source, excludes)\<close>\<close>
  | OpenArchive path compression "int option"  \<comment> \<open>\<^verbatim>\<open>zipfile.ZipFile(archive_path, mode="w", ...)\<close>\<close>
  | OpenEntry string compression "int option"  \<comment> \<open>\<^verbatim>\<open>zf.open(arcname, mode="w")\<close>\<close>
  | WriteChunk nat                             \<comment> \<open>\<^verbatim>\<open>fw.write(chunk)\<close>, with \<^verbatim>\<open>len(chunk)\<close>\<close>
  | Progress nat nat                           \<comment> \<open>\<^verbatim>\<open>progress_cb(processed, tot, ...)\<close>\<close>

definition CHUNK_SIZE :: nat where
  "CHUNK_SIZE = 8 * 1024 * 1024"

record wstate =
  processed :: nat
  trace :: "action list"

text \<open>
  The loop \<^verbatim>\<open>while True: chunk = fr.read(CHUNK_SIZE) ...\<close> on a file that still
  delivers \<open>remaining\<close> bytes: a read returns \<open>CHUNK_SIZE\<close> bytes, or the rest at
  the end of the file, and the empty read ends the loop.
\<close>

function copy_loop :: "bool \<Rightarrow> nat \<Rightarrow> nat \<Rightarrow> wstate \<Rightarrow> wstate" where
  "copy_loop progress_cb tot remaining st =
     (let chunk = min CHUNK_SIZE remaining in
      if chunk = 0 then st
      else copy_loop progress_cb tot (remaining - chunk)
             \<lparr>processed = processed st + chunk,
              trace = trace st @ WriteChunk chunk #
                (if progress_cb then [Progress (processed st + chunk) tot] else [])\<rparr>)"
  by pat_completeness auto
termination
  by (relation "measure (\<lambda>(cb, tot, remaining, st). remaining)") (auto simp: CHUNK_SIZE_def)

declare copy_loop.simps [simp del]

text \<open>
  The entry name \<^verbatim>\<open>str(arcname).replace("\\", "/")\<close> with
  \<^verbatim>\<open>arcname = Path(source.name) / rel\<close>.
\<close>

definition entry_name :: "host \<Rightarrow> path \<Rightarrow> path \<Rightarrow> string" where
  "entry_name h source rel =
     (let arcname = joinrel (Path (name source)) rel
      in replace_backslash (str_path (sep h) arcname))"

text \<open>The loop \<^verbatim>\<open>for fpath in files\<close>; an exception leaves the state reached.\<close>

fun write_files ::
    "host \<Rightarrow> path \<Rightarrow> compression \<Rightarrow> int option \<Rightarrow> bool \<Rightarrow> nat \<Rightarrow> path list \<Rightarrow> wstate
     \<Rightarrow> wstate \<times> error option" where
  "write_files h source compression compresslevel progress_cb tot [] st = (st, None)"
| "write_files h source compression compresslevel progress_cb tot (fpath # rest) st =
     (case relative_to fpath source of
        Inl e \<Rightarrow> (st, Some e)
      | Inr rel \<Rightarrow>
          (case open_rb h fpath of
             None \<Rightarrow> (st, Some OSError)
           | Some n \<Rightarrow>
               write_files h source compression compresslevel progress_cb tot rest
                 (copy_loop progress_cb tot n
                    (st\<lparr>trace := trace st @
                       [OpenEntry (entry_name h source rel) compression compresslevel]\<rparr>))))"

definition archive_path :: "host \<Rightarrow> path \<Rightarrow> path \<Rightarrow> path" where
  "archive_path h source dest_dir =
     joinpath dest_dir (name source @ ''-'' @ timestamp h @ ''.zip'')"

definition backup_streaming ::
    "host \<Rightarrow> path \<Rightarrow> path \<Rightarrow> compression \<Rightarrow> int option \<Rightarrow> string set \<Rightarrow> bool
     \<Rightarrow> action list \<times> (error + path)" where
  "backup_streaming h source dest_dir compression compresslevel excludes progress_cb =
     (if \<not> is_dir h source then ([], Inl SourceNotDirectory)
      else if \<not> mkdir_ok h dest_dir then ([], Inl OSError)
      else
        let (files, tot) = iter_files_with_size h source excludes in
        if tot = 0 then ([Mkdir dest_dir, Scan source], Inl NoFilesToBackUp)
        else
          let (st, err) =
                write_files h source compression compresslevel progress_cb tot files
                  \<lparr>processed = 0,
                   trace = [Mkdir dest_dir, Scan source,
                            OpenArchive (archive_path h source dest_dir)
                              compression compresslevel]\<rparr>
          in case err of
               Some e \<Rightarrow> (trace st, Inl e)
             | None \<Rightarrow>
                 (trace st @ (if progress_cb then [Progress tot tot] else []),
                  Inr (archive_path h source dest_dir)))"

section \<open>Observations on a scan and on a run\<close>

text \<open>
  The pairs (path, \<^verbatim>\<open>st_size\<close>) of the files a scan appends, in scan order: the
  sizes observed during the scan pass.
\<close>

fun name_entries :: "path \<Rightarrow> fname list \<Rightarrow> (path \<times> nat) list" where
  "name_entries base [] = []"
| "name_entries base ((n, None, isf) # rest) = name_entries base rest"
| "name_entries base ((n, Some st_size, isf) # rest) =
     (if isf then (joinpath base n, st_size) # name_entries base rest
      else name_entries base rest)"

fun walk_entries :: "(path \<times> fname list) list \<Rightarrow> (path \<times> nat) list" where
  "walk_entries [] = []"
| "walk_entries ((r, fnames) # rest) = name_entries r fnames @ walk_entries rest"

definition scanned :: "host \<Rightarrow> path \<Rightarrow> string set \<Rightarrow> (path \<times> nat) list" where
  "scanned h root excludes = walk_entries (os_walk h (resolve h root) excludes)"

text \<open>The components of \<open>p\<close> below \<open>root\<close>; \<open>None\<close> when \<open>p\<close> is not below \<open>root\<close>.\<close>

definition below :: "path \<Rightarrow> path \<Rightarrow> string list option" where
  "below root p =
     (if anchor p = anchor root \<and> take (length (tail root)) (tail p) = tail root
      then Some (drop (length (tail root)) (tail p)) else None)"

text \<open>
  A file \<open>p\<close> lies under an excluded directory when one of the directory
  components that lead from \<open>root\<close> to it (its own name apart) is in the
  exclusion set. A directory \<open>d\<close> is pruned when one of the components from
  \<open>root\<close> to it, its own name included, is.
\<close>

definition file_clear :: "string set \<Rightarrow> path \<Rightarrow> path \<Rightarrow> bool" where
  "file_clear excludes root p =
     (case below root p of
        None \<Rightarrow> False
      | Some rel \<Rightarrow> rel \<noteq> [] \<and> list_all (\<lambda>c. c \<notin> excludes) (butlast rel))"

definition dir_clear :: "string set \<Rightarrow> path \<Rightarrow> path \<Rightarrow> bool" where
  "dir_clear excludes root d =
     (case below root d of
        None \<Rightarrow> False
      | Some rel \<Rightarrow> list_all (\<lambda>c. c \<notin> excludes) rel)"

text \<open>A listing from which the files whose \<^verbatim>\<open>stat\<close> raises are removed, at every depth.\<close>

fun without_stat_failures :: "(string \<times> node) list \<Rightarrow> (string \<times> node) list" where
  "without_stat_failures [] = []"
| "without_stat_failures ((n, File None isf) # es) = without_stat_failures es"
| "without_stat_failures ((n, File (Some s) isf) # es) =
     (n, File (Some s) isf) # without_stat_failures es"
| "without_stat_failures ((n, Dir sub) # es) =
     (n, Dir (without_stat_failures sub)) # without_stat_failures es"

fun progress_events :: "action list \<Rightarrow> (nat \<times> nat) list" where
  "progress_events [] = []"
| "progress_events (Progress p t # as) = (p, t) # progress_events as"
| "progress_events (a # as) = progress_events as"

fun opened_entries :: "action list \<Rightarrow> (string \<times> compression \<times> int option) list" where
  "opened_entries [] = []"
| "opened_entries (OpenEntry n c l # as) = (n, c, l) # opened_entries as"
| "opened_entries (a # as) = opened_entries as"

fun opened_archives :: "action list \<Rightarrow> (path \<times> compression \<times> int option) list" where
  "opened_archives [] = []"
| "opened_archives (OpenArchive p c l # as) = (p, c, l) # opened_archives as"
| "opened_archives (a # as) = opened_archives as"

text \<open>The entry name of a scanned file, when \<^verbatim>\<open>relative_to\<close> does not raise.\<close>

definition entry_of :: "host \<Rightarrow> path \<Rightarrow> path \<Rightarrow> string option" where
  "entry_of h source fpath =
     (case relative_to fpath source of Inl e \<Rightarrow> None | Inr rel \<Rightarrow> Some (entry_name h source rel))"

section \<open>A concrete host\<close>

text \<open>
  The tree \<^verbatim>\<open>proj/{a.txt (5 B), .git/x (100 B), sub/b.txt (10 B)}\<close> in
  \<^verbatim>\<open>/home/u\<close>, the working directory, on a POSIX host.
\<close>

definition proj :: path where
  "proj = \<lparr>anchor = ''/'', tail = [''home'', ''u'', ''proj'']\<rparr>"

definition proj_rel :: path where
  "proj_rel = \<lparr>anchor = [], tail = [''proj'']\<rparr>"

definition backups :: path where
  "backups = \<lparr>anchor = ''/'', tail = [''backups'']\<rparr>"

definition proj_tree :: node where
  "proj_tree = Dir [(''a.txt'', File (Some 5) True),
                    (''.git'', Dir [(''x'', File (Some 100) True)]),
                    (''sub'', Dir [(''b.txt'', File (Some 10) True)])]"

text \<open>A tree whose whole content is excluded, and one whose only file is empty.\<close>

definition git_only_tree :: node where
  "git_only_tree = Dir [(''.git'', Dir [(''x'', File (Some 100) True)])]"

definition empty_file_tree :: node where
  "empty_file_tree = Dir [(''empty.txt'', File (Some 0) True)]"

text \<open>The tree of the concrete scenario with two files added whose \<^verbatim>\<open>stat\<close> raises.\<close>

definition flaky_tree :: node where
  "flaky_tree = Dir [(''a.txt'', File (Some 5) True),
                     (''gone.txt'', File None False),
                     (''.git'', Dir [(''x'', File (Some 100) True)]),
                     (''sub'', Dir [(''locked'', File None True), (''b.txt'', File (Some 10) True)])]"

definition posix_resolve :: "path \<Rightarrow> path" where
  "posix_resolve p =
     (if anchor p = [] then \<lparr>anchor = ''/'', tail = [''home'', ''u''] @ tail p\<rparr> else p)"

definition proj_host :: "node \<Rightarrow> host" where
  "proj_host t =
     \<lparr>sep = CHR ''/'',
      resolve = posix_resolve,
      node_at = (\<lambda>p. if posix_resolve p = proj then Some t else None),
      mkdir_ok = (\<lambda>p. True),
      open_rb = (\<lambda>p. if p = joinpath proj ''a.txt'' then Some 5
                      else if p = joinpath (joinpath proj ''sub'') ''b.txt'' then Some 10
                      else if p = joinpath proj ''empty.txt'' then Some 0
                      else None),
      timestamp = ''20240101-120000''\<rparr>"

text \<open>The state in which the loop over the files starts: the archive has just been opened.\<close>

definition start :: "host \<Rightarrow> path \<Rightarrow> path \<Rightarrow> compression \<Rightarrow> int option \<Rightarrow> wstate" where
  "start h source dest_dir compression compresslevel =
     \<lparr>processed = 0,
      trace = [Mkdir dest_dir, Scan source,
               OpenArchive (archive_path h source dest_dir) compression compresslevel]\<rparr>"

section \<open>The invariant of the write pass\<close>

text \<open>
  The processed counts reported so far are non-decreasing and bounded by the
  counter, every report carries the same total, and once bytes have been
  written with a callback the last report equals the counter.
\<close>

definition run_inv :: "bool \<Rightarrow> nat \<Rightarrow> wstate \<Rightarrow> bool" where
  "run_inv cb T st \<longleftrightarrow>
     sorted (map fst (progress_events (trace st))) \<and>
     (\<forall>e \<in> set (progress_events (trace st)). fst e \<le> processed st \<and> snd e = T) \<and>
     (cb \<and> 0 < processed st \<longrightarrow>
        progress_events (trace st) \<noteq> [] \<and> fst (last (progress_events (trace st))) = processed st)"

section \<open>Facts about the scanner\<close>

lemma scan_names_eq:
  "scan_names base fn (fs, t) =
     (fs @ map fst (name_entries base fn), t + sum_list (map snd (name_entries base fn)))"
  by (induction base fn "(fs, t)" arbitrary: fs t rule: scan_names.induct) (auto split: option.splits)

lemma scan_dirs_eq:
  "scan_dirs ws (fs, t) =
     (fs @ map fst (walk_entries ws), t + sum_list (map snd (walk_entries ws)))"
  by (induction ws arbitrary: fs t) (auto simp: scan_names_eq)

lemma iter_files_with_size_scanned:
  "iter_files_with_size h root X =
     (map fst (scanned h root X), sum_list (map snd (scanned h root X)))"
  by (simp add: iter_files_with_size_def scanned_def scan_dirs_eq Let_def)


lemma below_self: "below r r = Some []"
  by (simp add: below_def)

lemma take_eq_length: "take (length ys) xs = ys \<Longrightarrow> length ys \<le> length xs"
  by (metis length_take min.cobounded1)

lemma below_joinpath: "below root r = Some rel \<Longrightarrow> below root (joinpath r d) = Some (rel @ [d])"
  by (auto simp: below_def joinpath_def split: if_splits dest: take_eq_length)

lemma walk_dirs_clear:
  "below root r = Some rel \<Longrightarrow> list_all (\<lambda>c. c \<notin> X) rel \<Longrightarrow>
     \<forall>(d, fn) \<in> set (walk X r es). dir_clear X root d"
  "below root r = Some rel \<Longrightarrow> list_all (\<lambda>c. c \<notin> X) rel \<Longrightarrow>
     \<forall>(d, fn) \<in> set (walk_dirs X r es). dir_clear X root d"
proof (induction X r es and X r es arbitrary: rel and rel rule: walk_walk_dirs.induct)
  case (1 X r es)
  then show ?case by (auto simp: dir_clear_def)
next
  case (2 X r)
  then show ?case by simp
next
  case (3 X r d st isf es)
  then show ?case by simp
next
  case (4 X r d sub es)
  show ?case
  proof (cases "d \<in> X")
    case True
    with 4 show ?thesis by simp
  next
    case False
    have "below root (joinpath r d) = Some (rel @ [d])"
      using 4(3) by (rule below_joinpath)
    moreover have "list_all (\<lambda>c. c \<notin> X) (rel @ [d])"
      using 4(4) False by simp
    ultimately have "\<forall>(d, fn) \<in> set (walk X (joinpath r d) sub). dir_clear X root d"
      using 4(1)[OF False] by blast
    moreover have "\<forall>(d, fn) \<in> set (walk_dirs X r es). dir_clear X root d"
      using 4(2)[OF 4(3) 4(4)] .
    ultimately show ?thesis using False by auto
  qed
qed

lemma name_entries_clear:
  "dir_clear X root r \<Longrightarrow> (p, s) \<in> set (name_entries r fn) \<Longrightarrow> file_clear X root p"
  by (induction r fn rule: name_entries.induct)
     (auto simp: dir_clear_def file_clear_def below_joinpath split: option.splits if_splits)

lemma walk_entries_clear:
  "\<forall>(d, fn) \<in> set ws. dir_clear X root d \<Longrightarrow> (p, s) \<in> set (walk_entries ws) \<Longrightarrow>
     file_clear X root p"
  by (induction ws) (auto dest: name_entries_clear)

lemma os_walk_clear: "(d, fn) \<in> set (os_walk h r X) \<Longrightarrow> dir_clear X r d"
  using walk_dirs_clear(1)[OF below_self, of X r]
  by (fastforce simp: os_walk_def split: option.splits node.splits)

lemma scanned_clear: "(p, s) \<in> set (scanned h root X) \<Longrightarrow> file_clear X (resolve h root) p"
  unfolding scanned_def
  by (rule walk_entries_clear[where ws = "os_walk h (resolve h root) X"]) (auto dest: os_walk_clear)

lemma walk_entries_append: "walk_entries (xs @ ys) = walk_entries xs @ walk_entries ys"
  by (induction xs) auto

lemma nondirs_without_stat_failures:
  "name_entries r (nondirs (without_stat_failures es)) = name_entries r (nondirs es)"
  by (induction es rule: without_stat_failures.induct) auto

lemma walk_without_stat_failures:
  "walk_entries (walk X r (without_stat_failures es)) = walk_entries (walk X r es)"
  "walk_entries (walk_dirs X r (without_stat_failures es)) = walk_entries (walk_dirs X r es)"
proof (induction X r es and X r es rule: walk_walk_dirs.induct)
  case (1 X r es)
  then show ?case by (simp add: nondirs_without_stat_failures)
next
  case (2 X r)
  then show ?case by simp
next
  case (3 X r d st isf es)
  then show ?case by (cases st) simp_all
next
  case (4 X r d sub es)
  then show ?case by (simp add: walk_entries_append)
qed

lemma scan_names_skip:
  "scan_names base (pre @ (n, None, isf) # post) acc = scan_names base (pre @ post) acc"
proof (induction pre arbitrary: acc)
  case Nil
  then show ?case by (cases acc) simp
next
  case (Cons a pre)
  obtain m st f where a: "a = (m, st, f)" by (cases a)
  obtain files tot where acc: "acc = (files, tot)" by (cases acc)
  show ?case using Cons.IH by (simp add: a acc split: option.splits)
qed

section \<open>Facts about the copy loop\<close>

lemma progress_events_append:
  "progress_events (xs @ ys) = progress_events xs @ progress_events ys"
  by (induction xs rule: progress_events.induct) auto

lemma opened_entries_append:
  "opened_entries (xs @ ys) = opened_entries xs @ opened_entries ys"
  by (induction xs rule: opened_entries.induct) auto

lemma opened_archives_append:
  "opened_archives (xs @ ys) = opened_archives xs @ opened_archives ys"
  by (induction xs rule: opened_archives.induct) auto

lemma copy_loop_done: "min CHUNK_SIZE n = 0 \<Longrightarrow> copy_loop cb T n st = st"
  by (subst copy_loop.simps) simp

lemma copy_loop_step:
  "min CHUNK_SIZE n \<noteq> 0 \<Longrightarrow>
     copy_loop cb T n st =
       copy_loop cb T (n - min CHUNK_SIZE n)
         \<lparr>processed = processed st + min CHUNK_SIZE n,
          trace = trace st @ WriteChunk (min CHUNK_SIZE n) #
            (if cb then [Progress (processed st + min CHUNK_SIZE n) T] else [])\<rparr>"
  by (subst copy_loop.simps) (simp only: Let_def if_False)

lemma copy_step_inv:
  assumes "run_inv cb T st"
  shows "run_inv cb T \<lparr>processed = processed st + c,
            trace = trace st @ WriteChunk c # (if cb then [Progress (processed st + c) T] else [])\<rparr>"
  using assms
  by (auto simp: run_inv_def progress_events_append sorted_append)

lemma copy_loop_inv: "run_inv cb T st \<Longrightarrow> run_inv cb T (copy_loop cb T n st)"
proof (induction cb T n st rule: copy_loop.induct)
  case (1 cb T n st)
  show ?case
  proof (cases "min CHUNK_SIZE n = 0")
    case True
    then show ?thesis using 1(2) by (simp only: copy_loop_done)
  next
    case False
    from 1(1)[OF refl False copy_step_inv[OF 1(2)]]
    show ?thesis by (simp only: copy_loop_step[OF False])
  qed
qed

lemma copy_loop_processed: "processed (copy_loop cb T n st) = processed st + n"
proof (induction cb T n st rule: copy_loop.induct)
  case (1 cb T n st)
  show ?case
  proof (cases "min CHUNK_SIZE n = 0")
    case True
    then have "n = 0" by (simp add: CHUNK_SIZE_def)
    with True show ?thesis by (simp add: copy_loop_done)
  next
    case False
    from 1[OF refl False]
    show ?thesis by (simp only: copy_loop_step[OF False]) simp
  qed
qed

lemma copy_loop_trace:
  "\<exists>ext. trace (copy_loop cb T n st) = trace st @ ext \<and>
         opened_entries ext = [] \<and> opened_archives ext = []"
proof (induction cb T n st rule: copy_loop.induct)
  case (1 cb T n st)
  show ?case
  proof (cases "min CHUNK_SIZE n = 0")
    case True
    then show ?thesis by (simp add: copy_loop_done)
  next
    case False
    from 1[OF refl False] obtain ext where
      "trace (copy_loop cb T (n - min CHUNK_SIZE n)
         \<lparr>processed = processed st + min CHUNK_SIZE n,
          trace = trace st @ WriteChunk (min CHUNK_SIZE n) #
            (if cb then [Progress (processed st + min CHUNK_SIZE n) T] else [])\<rparr>)
       = (trace st @ WriteChunk (min CHUNK_SIZE n) #
            (if cb then [Progress (processed st + min CHUNK_SIZE n) T] else [])) @ ext"
      and "opened_entries ext = []" and "opened_archives ext = []"
      by auto
    then show ?thesis
      unfolding copy_loop_step[OF False]
      by (auto simp: opened_entries_append opened_archives_append)
  qed
qed

text \<open>A file one byte longer than a chunk is copied in two writes, each reported.\<close>

lemma copy_loop_two_chunks:
  "copy_loop True T (CHUNK_SIZE + 1) \<lparr>processed = 0, trace = []\<rparr> =
     \<lparr>processed = CHUNK_SIZE + 1,
      trace = [WriteChunk CHUNK_SIZE, Progress CHUNK_SIZE T,
               WriteChunk 1, Progress (CHUNK_SIZE + 1) T]\<rparr>"
proof -
  have big: "min CHUNK_SIZE (CHUNK_SIZE + 1) = CHUNK_SIZE" by simp
  have small: "min CHUNK_SIZE (Suc 0) = Suc 0" by (simp add: CHUNK_SIZE_def)
  have pos: "CHUNK_SIZE \<noteq> 0" by (simp add: CHUNK_SIZE_def)
  have "copy_loop True T (CHUNK_SIZE + 1) \<lparr>processed = 0, trace = []\<rparr> =
        copy_loop True T (Suc 0)
          \<lparr>processed = CHUNK_SIZE, trace = [WriteChunk CHUNK_SIZE, Progress CHUNK_SIZE T]\<rparr>"
    using pos by (subst copy_loop_step) (simp_all add: big)
  also have "\<dots> = copy_loop True T 0
          \<lparr>processed = CHUNK_SIZE + 1,
           trace = [WriteChunk CHUNK_SIZE, Progress CHUNK_SIZE T,
                    WriteChunk 1, Progress (CHUNK_SIZE + 1) T]\<rparr>"
    by (subst copy_loop_step) (simp_all add: small)
  also have "\<dots> = \<lparr>processed = CHUNK_SIZE + 1,
           trace = [WriteChunk CHUNK_SIZE, Progress CHUNK_SIZE T,
                    WriteChunk 1, Progress (CHUNK_SIZE + 1) T]\<rparr>"
    by (simp add: copy_loop_done)
  finally show ?thesis .
qed

section \<open>Facts about the write pass\<close>

lemma open_entry_inv:
  "run_inv cb T st \<Longrightarrow> run_inv cb T (st\<lparr>trace := trace st @ [OpenEntry n c l]\<rparr>)"
  by (simp add: run_inv_def progress_events_append)

lemma write_files_inv:
  "run_inv cb T st \<Longrightarrow> run_inv cb T (fst (write_files h src c l cb T files st))"
proof (induction files arbitrary: st)
  case Nil
  then show ?case by simp
next
  case (Cons fpath rest)
  show ?case
  proof (cases "relative_to fpath src")
    case (Inl e)
    then show ?thesis using Cons.prems by simp
  next
    case (Inr rel)
    show ?thesis
    proof (cases "open_rb h fpath")
      case None
      then show ?thesis using Inr Cons.prems by simp
    next
      case (Some n)
      have "run_inv cb T (copy_loop cb T n
              (st\<lparr>trace := trace st @ [OpenEntry (entry_name h src rel) c l]\<rparr>))"
        by (intro copy_loop_inv open_entry_inv Cons.prems)
      from Cons.IH[OF this] show ?thesis using Inr Some by simp
    qed
  qed
qed

lemma write_files_errors:
  "write_files h src c l cb T files st = (st', Some e) \<Longrightarrow> e = NotInSubpath \<or> e = OSError"
proof (induction files arbitrary: st)
  case Nil
  then show ?case by simp
next
  case (Cons fpath rest)
  then show ?case
    by (auto simp: relative_to_def split: sum.splits option.splits if_splits)
qed

lemma write_files_processed:
  "write_files h src c l cb T (map fst ps) st = (st', None) \<Longrightarrow>
   \<forall>(p, s) \<in> set ps. open_rb h p = Some s \<Longrightarrow>
   processed st' = processed st + sum_list (map snd ps)"
proof (induction ps arbitrary: st)
  case Nil
  then show ?case by simp
next
  case (Cons a ps)
  obtain p s where a: "a = (p, s)" by (cases a)
  from Cons.prems(2) a have op: "open_rb h p = Some s" by simp
  from Cons.prems(1) a op obtain rel where rel: "relative_to p src = Inr rel"
    by (cases "relative_to p src") auto
  let ?st1 = "copy_loop cb T s (st\<lparr>trace := trace st @ [OpenEntry (entry_name h src rel) c l]\<rparr>)"
  from Cons.prems(1) a op rel
  have "write_files h src c l cb T (map fst ps) ?st1 = (st', None)" by simp
  moreover from Cons.prems(2) have "\<forall>(p, s) \<in> set ps. open_rb h p = Some s" by simp
  ultimately have "processed st' = processed ?st1 + sum_list (map snd ps)"
    by (rule Cons.IH)
  then show ?case using a by (simp add: copy_loop_processed)
qed

lemma write_files_trace:
  "\<exists>ext. trace (fst (write_files h src c l cb T files st)) = trace st @ ext \<and>
         opened_archives ext = [] \<and>
         (\<forall>(n, c', l') \<in> set (opened_entries ext).
            c' = c \<and> l' = l \<and> (\<exists>fpath \<in> set files. entry_of h src fpath = Some n))"
proof (induction files arbitrary: st)
  case Nil
  then show ?case by simp
next
  case (Cons fpath rest)
  show ?case
  proof (cases "relative_to fpath src")
    case (Inl e)
    then show ?thesis by simp
  next
    case (Inr rel)
    show ?thesis
    proof (cases "open_rb h fpath")
      case None
      then show ?thesis using Inr by simp
    next
      case (Some n)
      let ?st0 = "st\<lparr>trace := trace st @ [OpenEntry (entry_name h src rel) c l]\<rparr>"
      let ?st1 = "copy_loop cb T n ?st0"
      obtain e1 where e1: "trace ?st1 = trace ?st0 @ e1" "opened_entries e1 = []"
        "opened_archives e1 = []"
        using copy_loop_trace[of cb T n ?st0] by blast
      obtain e2 where e2: "trace (fst (write_files h src c l cb T rest ?st1)) = trace ?st1 @ e2"
        "opened_archives e2 = []"
        "\<forall>(n, c', l') \<in> set (opened_entries e2).
            c' = c \<and> l' = l \<and> (\<exists>fpath \<in> set rest. entry_of h src fpath = Some n)"
        using Cons.IH[of ?st1] by blast
      have w: "write_files h src c l cb T (fpath # rest) st = write_files h src c l cb T rest ?st1"
        using Inr Some by simp
      have en: "entry_of h src fpath = Some (entry_name h src rel)"
        using Inr by (simp add: entry_of_def)
      let ?ext = "OpenEntry (entry_name h src rel) c l # e1 @ e2"
      have "trace (fst (write_files h src c l cb T (fpath # rest) st)) = trace st @ ?ext"
        using w e1(1) e2(1) by simp
      moreover have "opened_archives ?ext = []"
        using e1(3) e2(2) by (simp add: opened_archives_append)
      moreover have "\<forall>(n, c', l') \<in> set (opened_entries ?ext).
            c' = c \<and> l' = l \<and> (\<exists>fpath \<in> set (fpath # rest). entry_of h src fpath = Some n)"
        using e1(2) e2(3) en by (auto simp: opened_entries_append)
      ultimately show ?thesis by blast
    qed
  qed
qed

section \<open>Facts about a run\<close>

lemmas host_defs = proj_host_def posix_resolve_def proj_def proj_rel_def backups_def joinpath_def

lemma backup_streaming_empty:
  "is_dir h source \<Longrightarrow> mkdir_ok h dest_dir \<Longrightarrow>
   snd (iter_files_with_size h source excludes) = 0 \<Longrightarrow>
     backup_streaming h source dest_dir compression compresslevel excludes progress_cb =
       ([Mkdir dest_dir, Scan source], Inl NoFilesToBackUp)"
  by (cases "iter_files_with_size h source excludes") (simp add: backup_streaming_def)

lemma backup_streaming_cases:
  fixes h source dest_dir c l X cb
  defines "r \<equiv> backup_streaming h source dest_dir c l X cb"
  defines "files \<equiv> fst (iter_files_with_size h source X)"
  defines "T \<equiv> snd (iter_files_with_size h source X)"
  obtains
    (invalid) "\<not> is_dir h source" "r = ([], Inl SourceNotDirectory)"
  | (mkdir) "is_dir h source" "\<not> mkdir_ok h dest_dir" "r = ([], Inl OSError)"
  | (empty) "is_dir h source" "mkdir_ok h dest_dir" "T = 0"
      "r = ([Mkdir dest_dir, Scan source], Inl NoFilesToBackUp)"
  | (failed) st e where "is_dir h source" "mkdir_ok h dest_dir" "T \<noteq> 0"
      "write_files h source c l cb T files (start h source dest_dir c l) = (st, Some e)"
      "r = (trace st, Inl e)"
  | (written) st where "is_dir h source" "mkdir_ok h dest_dir" "T \<noteq> 0"
      "write_files h source c l cb T files (start h source dest_dir c l) = (st, None)"
      "r = (trace st @ (if cb then [Progress T T] else []), Inr (archive_path h source dest_dir))"
proof -
  obtain st err where w: "write_files h source c l cb T files (start h source dest_dir c l) = (st, err)"
    by (cases "write_files h source c l cb T files (start h source dest_dir c l)")
  have it: "iter_files_with_size h source X = (files, T)"
    by (simp add: files_def T_def)
  consider "\<not> is_dir h source" | "is_dir h source" "\<not> mkdir_ok h dest_dir"
    | "is_dir h source" "mkdir_ok h dest_dir" "T = 0"
    | "is_dir h source" "mkdir_ok h dest_dir" "T \<noteq> 0" by blast
  then show thesis
  proof cases
    case 1
    then show ?thesis using invalid by (simp add: r_def backup_streaming_def)
  next
    case 2
    then show ?thesis using mkdir by (simp add: r_def backup_streaming_def)
  next
    case 3
    then show ?thesis using empty it by (simp add: r_def backup_streaming_def)
  next
    case 4
    show ?thesis
    proof (cases err)
      case None
      with 4 w it have "r = (trace st @ (if cb then [Progress T T] else []),
          Inr (archive_path h source dest_dir))"
        by (simp add: r_def backup_streaming_def start_def)
      with 4 w None show ?thesis using written by blast
    next
      case (Some e)
      with 4 w it have "r = (trace st, Inl e)"
        by (simp add: r_def backup_streaming_def start_def)
      with 4 w Some show ?thesis using failed by blast
    qed
  qed
qed

lemma write_files_traceD:
  "write_files h src c l cb T files st = (st', err) \<Longrightarrow>
     \<exists>ext. trace st' = trace st @ ext \<and> opened_archives ext = [] \<and>
       (\<forall>(n, c', l') \<in> set (opened_entries ext).
          c' = c \<and> l' = l \<and> (\<exists>fpath \<in> set files. entry_of h src fpath = Some n))"
  using write_files_trace[of h src c l cb T files st] by simp

lemma run_inv_start: "run_inv cb T (start h source dest_dir c l)"
  by (simp add: run_inv_def start_def)

text \<open>The run on the concrete tree, and what its scan observes.\<close>

lemma proj_run:
  "backup_streaming (proj_host proj_tree) proj backups c l {''.git''} True
  = ([Mkdir backups, Scan proj, OpenArchive (joinpath backups ''proj-20240101-120000.zip'') c l,
      OpenEntry ''proj/a.txt'' c l, WriteChunk 5, Progress 5 15,
      OpenEntry ''proj/sub/b.txt'' c l, WriteChunk 10, Progress 15 15, Progress 15 15],
     Inr (joinpath backups ''proj-20240101-120000.zip''))"
  by (simp add: backup_streaming_def is_dir_def host_defs proj_tree_def
      iter_files_with_size_def os_walk_def relative_to_def entry_name_def
      Path_def name_def joinrel_def str_path_def replace_backslash_def archive_path_def CHUNK_SIZE_def
      copy_loop.simps)

lemma proj_scanned:
  "scanned (proj_host proj_tree) proj {''.git''} =
     [(joinpath proj ''a.txt'', 5), (joinpath (joinpath proj ''sub'') ''b.txt'', 10)]"
  by (simp add: scanned_def os_walk_def host_defs proj_tree_def)

section \<open>Error paths\<close>

text \<open>
  C6. A source path that is missing or is not a directory makes
  \<^verbatim>\<open>backup_streaming\<close> fail with the invalid-source error before any work: the
  run does nothing at all, so no destination directory is created, no scan
  is made and no archive is opened.
\<close>

theorem invalid_source_no_work:
  "\<not> is_dir h source \<Longrightarrow>
     backup_streaming h source dest_dir compression compresslevel excludes progress_cb =
       ([], Inl SourceNotDirectory)"
  by (simp add: backup_streaming_def)

text \<open>Witness: the source path names a regular file.\<close>

theorem invalid_source_no_work_witness:
  "\<not> is_dir (proj_host (File (Some 5) True)) proj \<and>
   backup_streaming (proj_host (File (Some 5) True)) proj backups ZIP_STORED None {''.git''} True =
     ([], Inl SourceNotDirectory)"
  using invalid_source_no_work[of "proj_host (File (Some 5) True)" proj backups ZIP_STORED None
      "{''.git''}" True]
  by (simp add: is_dir_def host_defs)

text \<open>
  C5. When the source is a directory, the destination directory can be
  created and the scan yields a total of 0 bytes, \<^verbatim>\<open>backup_streaming\<close> fails
  with the empty-source error and no archive is opened.
\<close>

theorem empty_source_error:
  "is_dir h source \<Longrightarrow> mkdir_ok h dest_dir \<Longrightarrow>
   snd (iter_files_with_size h source excludes) = 0 \<Longrightarrow>
     backup_streaming h source dest_dir compression compresslevel excludes progress_cb =
       ([Mkdir dest_dir, Scan source], Inl NoFilesToBackUp) \<and>
     opened_archives
       (fst (backup_streaming h source dest_dir compression compresslevel excludes progress_cb)) = []"
  by (simp add: backup_streaming_empty)

text \<open>Witness: everything in the tree lies under the excluded \<^verbatim>\<open>.git\<close>.\<close>

theorem empty_source_error_witness:
  "is_dir (proj_host git_only_tree) proj \<and> mkdir_ok (proj_host git_only_tree) backups \<and>
   snd (iter_files_with_size (proj_host git_only_tree) proj {''.git''}) = 0 \<and>
   backup_streaming (proj_host git_only_tree) proj backups ZIP_STORED None {''.git''} True =
     ([Mkdir backups, Scan proj], Inl NoFilesToBackUp) \<and>
   opened_archives
     (fst (backup_streaming (proj_host git_only_tree) proj backups ZIP_STORED None {''.git''} True)) = []"
proof -
  have 1: "is_dir (proj_host git_only_tree) proj"
    by (simp add: is_dir_def host_defs git_only_tree_def)
  have 2: "mkdir_ok (proj_host git_only_tree) backups"
    by (simp add: host_defs)
  have 3: "snd (iter_files_with_size (proj_host git_only_tree) proj {''.git''}) = 0"
    by (simp add: iter_files_with_size_def os_walk_def host_defs git_only_tree_def)
  from empty_source_error[OF 1 2 3, of ZIP_STORED None True] 1 2 3 show ?thesis by simp
qed

text \<open>
  C9. When the scan yields a non-empty file list in which every file has size
  0, \<^verbatim>\<open>backup_streaming\<close> still fails with the empty-source error and opens
  no archive: the test is on the byte total, not on the file list.
\<close>

theorem zero_byte_files_rejected:
  assumes "is_dir h source" and "mkdir_ok h dest_dir"
    and "scanned h source excludes \<noteq> []"
    and "\<forall>(p, s) \<in> set (scanned h source excludes). s = 0"
  shows "fst (iter_files_with_size h source excludes) \<noteq> [] \<and>
     backup_streaming h source dest_dir compression compresslevel excludes progress_cb =
       ([Mkdir dest_dir, Scan source], Inl NoFilesToBackUp) \<and>
     opened_archives
       (fst (backup_streaming h source dest_dir compression compresslevel excludes progress_cb)) = []"
proof -
  have "sum_list (map snd (scanned h source excludes)) = 0"
    using assms(4) by (induction "scanned h source excludes") auto
  then have "snd (iter_files_with_size h source excludes) = 0"
    by (simp add: iter_files_with_size_scanned)
  moreover have "fst (iter_files_with_size h source excludes) \<noteq> []"
    using assms(3) by (simp add: iter_files_with_size_scanned)
  ultimately show ?thesis
    using assms(1,2) by (simp add: backup_streaming_empty)
qed

text \<open>Witness: the tree holds one empty file.\<close>

theorem zero_byte_files_rejected_witness:
  "is_dir (proj_host empty_file_tree) proj \<and> mkdir_ok (proj_host empty_file_tree) backups \<and>
   scanned (proj_host empty_file_tree) proj {''.git''} = [(joinpath proj ''empty.txt'', 0)] \<and>
   fst (iter_files_with_size (proj_host empty_file_tree) proj {''.git''}) \<noteq> [] \<and>
   backup_streaming (proj_host empty_file_tree) proj backups ZIP_STORED None {''.git''} True =
     ([Mkdir backups, Scan proj], Inl NoFilesToBackUp) \<and>
   opened_archives
     (fst (backup_streaming (proj_host empty_file_tree) proj backups ZIP_STORED None {''.git''} True)) = []"
proof -
  have 1: "is_dir (proj_host empty_file_tree) proj"
    by (simp add: is_dir_def host_defs empty_file_tree_def)
  have 2: "mkdir_ok (proj_host empty_file_tree) backups"
    by (simp add: host_defs)
  have 3: "scanned (proj_host empty_file_tree) proj {''.git''} = [(joinpath proj ''empty.txt'', 0)]"
    by (simp add: scanned_def os_walk_def host_defs empty_file_tree_def)
  have 4: "scanned (proj_host empty_file_tree) proj {''.git''} \<noteq> []"
    and 5: "\<forall>(p, s) \<in> set (scanned (proj_host empty_file_tree) proj {''.git''}). s = 0"
    by (simp_all add: 3)
  from zero_byte_files_rejected[OF 1 2 4 5, of ZIP_STORED None True] 1 2 3 show ?thesis by simp
qed

text \<open>
  C10. \<^verbatim>\<open>backup_streaming\<close> creates the destination directory after the
  source has been validated and before the scan. When the source is a
  directory and the destination can be created, the run starts with the
  \<^verbatim>\<open>mkdir\<close> of the destination followed by the scan. When the source is not
  a directory the run does nothing and fails with the invalid-source error;
  when the \<^verbatim>\<open>mkdir\<close> raises the run does nothing more. A run that fails
  with the empty-source error has therefore created the destination
  directory, and has done nothing after the scan: no archive is opened.
\<close>

theorem dest_dir_created_before_scan:
  fixes h source dest_dir c l X cb
  defines "r \<equiv> backup_streaming h source dest_dir c l X cb"
  shows "(is_dir h source \<and> mkdir_ok h dest_dir \<longrightarrow>
            (\<exists>rest. fst r = Mkdir dest_dir # Scan source # rest)) \<and>
         (\<not> is_dir h source \<longrightarrow> r = ([], Inl SourceNotDirectory)) \<and>
         (is_dir h source \<and> \<not> mkdir_ok h dest_dir \<longrightarrow> r = ([], Inl OSError)) \<and>
         (snd r = Inl NoFilesToBackUp \<longrightarrow>
            is_dir h source \<and> mkdir_ok h dest_dir \<and> fst r = [Mkdir dest_dir, Scan source]) \<and>
         (fst r = [] \<or> (is_dir h source \<and> (\<exists>rest. fst r = Mkdir dest_dir # Scan source # rest)))"
proof (cases h source dest_dir c l X cb rule: backup_streaming_cases)
  case invalid
  then show ?thesis by (simp add: r_def)
next
  case mkdir
  then show ?thesis by (simp add: r_def)
next
  case empty
  then show ?thesis by (simp add: r_def)
next
  case (failed st e)
  from write_files_errors[OF failed(4)] have "e \<noteq> NoFilesToBackUp" by auto
  moreover from write_files_traceD[OF failed(4)]
  obtain ext where "trace st = trace (start h source dest_dir c l) @ ext" by auto
  ultimately show ?thesis using failed by (simp add: r_def start_def)
next
  case (written st)
  from write_files_traceD[OF written(4)]
  obtain ext where "trace st = trace (start h source dest_dir c l) @ ext" by auto
  then show ?thesis using written by (simp add: r_def start_def)
qed

text \<open>
  Witness: the concrete tree, whose run goes on to write the archive, and the
  tree whose whole content is excluded, whose run ends with the empty-source
  error.
\<close>

theorem dest_dir_created_before_scan_witness:
  "is_dir (proj_host proj_tree) proj \<and> mkdir_ok (proj_host proj_tree) backups \<and>
   take 2 (fst (backup_streaming (proj_host proj_tree) proj backups ZIP_STORED None {''.git''} True))
     = [Mkdir backups, Scan proj] \<and>
   is_dir (proj_host git_only_tree) proj \<and> mkdir_ok (proj_host git_only_tree) backups \<and>
   snd (backup_streaming (proj_host git_only_tree) proj backups ZIP_STORED None {''.git''} True)
     = Inl NoFilesToBackUp \<and>
   fst (backup_streaming (proj_host git_only_tree) proj backups ZIP_STORED None {''.git''} True)
     = [Mkdir backups, Scan proj]"
proof -
  have d1: "is_dir (proj_host proj_tree) proj" "mkdir_ok (proj_host proj_tree) backups"
    by (simp_all add: is_dir_def host_defs proj_tree_def)
  with dest_dir_created_before_scan[of "proj_host proj_tree" proj backups ZIP_STORED None
      "{''.git''}" True]
  obtain rest where
    "fst (backup_streaming (proj_host proj_tree) proj backups ZIP_STORED None {''.git''} True)
       = Mkdir backups # Scan proj # rest"
    by blast
  then have t1: "take 2 (fst (backup_streaming (proj_host proj_tree) proj backups ZIP_STORED None
      {''.git''} True)) = [Mkdir backups, Scan proj]"
    by (simp add: numeral_2_eq_2)
  have d2: "is_dir (proj_host git_only_tree) proj" "mkdir_ok (proj_host git_only_tree) backups"
    by (simp_all add: is_dir_def host_defs git_only_tree_def)
  have e: "snd (backup_streaming (proj_host git_only_tree) proj backups ZIP_STORED None {''.git''} True)
     = Inl NoFilesToBackUp"
    by (simp add: backup_streaming_def is_dir_def iter_files_with_size_def os_walk_def
        host_defs git_only_tree_def)
  with dest_dir_created_before_scan[of "proj_host git_only_tree" proj backups ZIP_STORED None
      "{''.git''}" True]
  have t2: "fst (backup_streaming (proj_host git_only_tree) proj backups ZIP_STORED None {''.git''} True)
     = [Mkdir backups, Scan proj]"
    by blast
  show ?thesis using d1 t1 d2 e t2 by simp
qed

section \<open>Compression\<close>

text \<open>
  C7. \<^verbatim>\<open>store\<close> selects \<^verbatim>\<open>ZIP_STORED\<close> with level \<^verbatim>\<open>None\<close> whatever level is
  supplied; \<^verbatim>\<open>deflate\<close> selects \<^verbatim>\<open>ZIP_DEFLATED\<close> at the given level, and at
  level 1 when none is supplied. The archive and every entry of a run are
  opened with the compression type and level the run was given.
\<close>

theorem compression_fixed_for_run:
  "compression_from_args ''store'' level = Inr (ZIP_STORED, None) \<and>
   compression_from_args ''deflate'' (Some n) = Inr (ZIP_DEFLATED, Some n) \<and>
   compression_from_args ''deflate'' None = Inr (ZIP_DEFLATED, Some 1) \<and>
   (\<forall>(nm, c', l') \<in> set (opened_entries
        (fst (backup_streaming h source dest_dir c l X cb))). c' = c \<and> l' = l) \<and>
   (\<forall>(p, c', l') \<in> set (opened_archives
        (fst (backup_streaming h source dest_dir c l X cb))). c' = c \<and> l' = l)"
proof -
  have "(\<forall>(nm, c', l') \<in> set (opened_entries
        (fst (backup_streaming h source dest_dir c l X cb))). c' = c \<and> l' = l) \<and>
   (\<forall>(p, c', l') \<in> set (opened_archives
        (fst (backup_streaming h source dest_dir c l X cb))). c' = c \<and> l' = l)"
  proof (cases h source dest_dir c l X cb rule: backup_streaming_cases)
    case invalid
    then show ?thesis by simp
  next
    case mkdir
    then show ?thesis by simp
  next
    case empty
    then show ?thesis by simp
  next
    case (failed st e)
    from write_files_traceD[OF failed(4)] obtain ext where
      "trace st = trace (start h source dest_dir c l) @ ext" "opened_archives ext = []"
      "\<forall>(n, c', l') \<in> set (opened_entries ext). c' = c \<and> l' = l"
      by fastforce
    then show ?thesis using failed(5)
      by (auto simp: start_def opened_entries_append opened_archives_append)
  next
    case (written st)
    from write_files_traceD[OF written(4)] obtain ext where
      "trace st = trace (start h source dest_dir c l) @ ext" "opened_archives ext = []"
      "\<forall>(n, c', l') \<in> set (opened_entries ext). c' = c \<and> l' = l"
      by fastforce
    then show ?thesis using written(5)
      by (auto simp: start_def opened_entries_append opened_archives_append)
  qed
  then show ?thesis by (simp add: compression_from_args_def)
qed

text \<open>Witness: the concrete tree, written with \<^verbatim>\<open>deflate\<close> at level 9.\<close>

theorem compression_fixed_for_run_witness:
  "compression_from_args ''deflate'' (Some 9) = Inr (ZIP_DEFLATED, Some 9) \<and>
   (''proj/sub/b.txt'', ZIP_DEFLATED, Some 9) \<in> set (opened_entries
        (fst (backup_streaming (proj_host proj_tree) proj backups ZIP_DEFLATED (Some 9)
                {''.git''} True))) \<and>
   opened_entries
        (fst (backup_streaming (proj_host proj_tree) proj backups ZIP_DEFLATED (Some 9)
                {''.git''} True)) =
     [(''proj/a.txt'', ZIP_DEFLATED, Some 9), (''proj/sub/b.txt'', ZIP_DEFLATED, Some 9)]"
  using compression_fixed_for_run[of None 9 "proj_host proj_tree" proj backups ZIP_DEFLATED
      "Some 9" "{''.git''}" True]
  by (simp add: proj_run)

section \<open>Progress events\<close>

text \<open>
  C3. In every run, the total passed to each invocation of the progress
  callback is the sum of the sizes observed during the scan, the value
  \<^verbatim>\<open>iter_files_with_size\<close> returned; so it is the same in every event.
\<close>

theorem progress_total_constant:
  "\<forall>(p, t) \<in> set (progress_events (fst (backup_streaming h source dest_dir c l X cb))).
      t = sum_list (map snd (scanned h source X)) \<and>
      t = snd (iter_files_with_size h source X)"
proof -
  let ?T = "snd (iter_files_with_size h source X)"
  have T: "?T = sum_list (map snd (scanned h source X))"
    by (simp add: iter_files_with_size_scanned)
  have "\<forall>(p, t) \<in> set (progress_events (fst (backup_streaming h source dest_dir c l X cb))). t = ?T"
  proof (cases h source dest_dir c l X cb rule: backup_streaming_cases)
    case invalid
    then show ?thesis by simp
  next
    case mkdir
    then show ?thesis by simp
  next
    case empty
    then show ?thesis by simp
  next
    case (failed st e)
    have "run_inv cb ?T (fst (write_files h source c l cb ?T
            (fst (iter_files_with_size h source X)) (start h source dest_dir c l)))"
      by (rule write_files_inv[OF run_inv_start])
    then show ?thesis using failed(4,5) by (auto simp: run_inv_def)
  next
    case (written st)
    have "run_inv cb ?T (fst (write_files h source c l cb ?T
            (fst (iter_files_with_size h source X)) (start h source dest_dir c l)))"
      by (rule write_files_inv[OF run_inv_start])
    then show ?thesis using written(4,5) by (auto simp: run_inv_def progress_events_append)
  qed
  then show ?thesis using T by auto
qed

text \<open>Witness: the concrete tree, 15 bytes in two files.\<close>

theorem progress_total_constant_witness:
  "(5, 15) \<in> set (progress_events
      (fst (backup_streaming (proj_host proj_tree) proj backups ZIP_STORED None {''.git''} True))) \<and>
   sum_list (map snd (scanned (proj_host proj_tree) proj {''.git''})) = 15 \<and>
   progress_events
      (fst (backup_streaming (proj_host proj_tree) proj backups ZIP_STORED None {''.git''} True))
     = [(5, 15), (15, 15), (15, 15)]"
proof -
  have ev: "progress_events
      (fst (backup_streaming (proj_host proj_tree) proj backups ZIP_STORED None {''.git''} True))
     = [(5, 15), (15, 15), (15, 15)]"
    by (simp add: proj_run)
  then have "(5, 15) \<in> set (progress_events
      (fst (backup_streaming (proj_host proj_tree) proj backups ZIP_STORED None {''.git''} True)))"
    by simp
  with progress_total_constant[of "proj_host proj_tree" proj backups ZIP_STORED None "{''.git''}" True]
  have "15 = sum_list (map snd (scanned (proj_host proj_tree) proj {''.git''}))"
    by blast
  with ev show ?thesis by simp
qed

section \<open>Exclusions and stat failures\<close>

text \<open>
  C1. The walk only visits directories none of whose components below the
  root is in the exclusion set, so an excluded directory is pruned before it
  is descended into; no file of the scan result lies under a directory
  whose name is excluded, at any depth below the root; and every entry
  opened in the archive is the entry of such a scanned file.
\<close>

theorem excluded_never_scanned_or_archived:
  "(\<forall>(d, fn) \<in> set (os_walk h (resolve h source) X). dir_clear X (resolve h source) d) \<and>
   (\<forall>p \<in> set (fst (iter_files_with_size h source X)). file_clear X (resolve h source) p) \<and>
   (\<forall>(n, c', l') \<in> set (opened_entries (fst (backup_streaming h source dest_dir c l X cb))).
      \<exists>fpath \<in> set (fst (iter_files_with_size h source X)).
        file_clear X (resolve h source) fpath \<and> entry_of h source fpath = Some n)"
proof -
  have dirs: "\<forall>(d, fn) \<in> set (os_walk h (resolve h source) X). dir_clear X (resolve h source) d"
    by (auto dest: os_walk_clear)
  have files: "\<forall>p \<in> set (fst (iter_files_with_size h source X)). file_clear X (resolve h source) p"
    by (auto simp: iter_files_with_size_scanned dest: scanned_clear)
  have "\<forall>(n, c', l') \<in> set (opened_entries (fst (backup_streaming h source dest_dir c l X cb))).
      \<exists>fpath \<in> set (fst (iter_files_with_size h source X)). entry_of h source fpath = Some n"
  proof (cases h source dest_dir c l X cb rule: backup_streaming_cases)
    case invalid
    then show ?thesis by simp
  next
    case mkdir
    then show ?thesis by simp
  next
    case empty
    then show ?thesis by simp
  next
    case (failed st e)
    from write_files_traceD[OF failed(4)] obtain ext where
      "trace st = trace (start h source dest_dir c l) @ ext"
      "\<forall>(n, c', l') \<in> set (opened_entries ext).
          \<exists>fpath \<in> set (fst (iter_files_with_size h source X)). entry_of h source fpath = Some n"
      by fastforce
    then show ?thesis using failed(5)
      by (auto simp: start_def opened_entries_append)
  next
    case (written st)
    from write_files_traceD[OF written(4)] obtain ext where
      "trace st = trace (start h source dest_dir c l) @ ext"
      "\<forall>(n, c', l') \<in> set (opened_entries ext).
          \<exists>fpath \<in> set (fst (iter_files_with_size h source X)). entry_of h source fpath = Some n"
      by fastforce
    then show ?thesis using written(5)
      by (auto simp: start_def opened_entries_append)
  qed
  with files have "\<forall>(n, c', l') \<in> set (opened_entries (fst (backup_streaming h source dest_dir c l X cb))).
      \<exists>fpath \<in> set (fst (iter_files_with_size h source X)).
        file_clear X (resolve h source) fpath \<and> entry_of h source fpath = Some n"
    by fastforce
  with dirs files show ?thesis by blast
qed

text \<open>Witness: \<^verbatim>\<open>.git/x\<close> exists in the concrete tree and is neither scanned nor archived.\<close>

theorem excluded_never_scanned_or_archived_witness:
  "\<not> file_clear {''.git''} (resolve (proj_host proj_tree) proj)
       (joinpath (joinpath proj ''.git'') ''x'') \<and>
   joinpath (joinpath proj ''.git'') ''x''
     \<notin> set (fst (iter_files_with_size (proj_host proj_tree) proj {''.git''})) \<and>
   fst (iter_files_with_size (proj_host proj_tree) proj {''.git''}) =
     [joinpath proj ''a.txt'', joinpath (joinpath proj ''sub'') ''b.txt''] \<and>
   map fst (opened_entries
     (fst (backup_streaming (proj_host proj_tree) proj backups ZIP_STORED None {''.git''} True))) =
     [''proj/a.txt'', ''proj/sub/b.txt'']"
proof -
  have 1: "\<not> file_clear {''.git''} (resolve (proj_host proj_tree) proj)
       (joinpath (joinpath proj ''.git'') ''x'')"
    by (simp add: file_clear_def below_def host_defs)
  with excluded_never_scanned_or_archived[of "proj_host proj_tree" proj "{''.git''}"
      backups ZIP_STORED None True]
  have 2: "joinpath (joinpath proj ''.git'') ''x''
     \<notin> set (fst (iter_files_with_size (proj_host proj_tree) proj {''.git''}))"
    by blast
  have 3: "fst (iter_files_with_size (proj_host proj_tree) proj {''.git''}) =
     [joinpath proj ''a.txt'', joinpath (joinpath proj ''sub'') ''b.txt'']"
    by (simp add: iter_files_with_size_scanned proj_scanned)
  show ?thesis using 1 2 3 by (simp add: proj_run)
qed

text \<open>
  C8. A file whose \<^verbatim>\<open>stat\<close> raises is skipped: the loop over the names of a
  directory gives the result it gives without that name, whatever comes
  before and after it, and the scan of a tree gives the file list and the
  total it gives for the tree without the files whose \<^verbatim>\<open>stat\<close> raises. The
  scan has no error result.
\<close>

theorem stat_failure_skipped:
  "scan_names base (pre @ (n, None, isf) # post) acc = scan_names base (pre @ post) acc \<and>
   (node_at h (resolve h root) = Some (Dir es) \<longrightarrow>
      iter_files_with_size
        (h\<lparr>node_at := (node_at h)(resolve h root \<mapsto> Dir (without_stat_failures es))\<rparr>) root X
      = iter_files_with_size h root X)"
  by (simp add: scan_names_skip iter_files_with_size_scanned scanned_def os_walk_def
      walk_without_stat_failures nondirs_without_stat_failures)

text \<open>Witness: \<^verbatim>\<open>gone.txt\<close> and \<^verbatim>\<open>sub/locked\<close> cannot be stat'd.\<close>

theorem stat_failure_skipped_witness:
  "node_at (proj_host flaky_tree) (resolve (proj_host flaky_tree) proj) = Some flaky_tree \<and>
   iter_files_with_size (proj_host flaky_tree) proj {''.git''} =
     ([joinpath proj ''a.txt'', joinpath (joinpath proj ''sub'') ''b.txt''], 15) \<and>
   iter_files_with_size
     ((proj_host flaky_tree)\<lparr>node_at := (node_at (proj_host flaky_tree))
        (resolve (proj_host flaky_tree) proj \<mapsto>
           Dir (without_stat_failures
             [(''a.txt'', File (Some 5) True),
              (''gone.txt'', File None False),
              (''.git'', Dir [(''x'', File (Some 100) True)]),
              (''sub'', Dir [(''locked'', File None True), (''b.txt'', File (Some 10) True)])]))\<rparr>)
     proj {''.git''} =
     ([joinpath proj ''a.txt'', joinpath (joinpath proj ''sub'') ''b.txt''], 15)"
proof -
  let ?es = "[(''a.txt'', File (Some 5) True),
              (''gone.txt'', File None False),
              (''.git'', Dir [(''x'', File (Some 100) True)]),
              (''sub'', Dir [(''locked'', File None True), (''b.txt'', File (Some 10) True)])]"
  have 1: "node_at (proj_host flaky_tree) (resolve (proj_host flaky_tree) proj) = Some (Dir ?es)"
    by (simp add: host_defs flaky_tree_def)
  have 2: "iter_files_with_size (proj_host flaky_tree) proj {''.git''} =
     ([joinpath proj ''a.txt'', joinpath (joinpath proj ''sub'') ''b.txt''], 15)"
    by (simp add: iter_files_with_size_def os_walk_def host_defs flaky_tree_def)
  from stat_failure_skipped[where h = "proj_host flaky_tree" and root = proj and es = ?es
      and X = "{''.git''}" and pre = "[]" and post = "[]" and n = "[]" and isf = True
      and base = proj and acc = "([], 0)"] 1
  have 3: "iter_files_with_size
     ((proj_host flaky_tree)\<lparr>node_at := (node_at (proj_host flaky_tree))
        (resolve (proj_host flaky_tree) proj \<mapsto> Dir (without_stat_failures ?es))\<rparr>)
     proj {''.git''} = iter_files_with_size (proj_host flaky_tree) proj {''.git''}"
    by blast
  have 4: "Dir ?es = flaky_tree" by (simp add: flaky_tree_def)
  show ?thesis using 1 2 3 unfolding 4 by simp
qed

section \<open>Monotone progress\<close>

text \<open>
  C2, as stated, fails on the concrete tree: the run succeeds, the files are
  read with the sizes the scan saw, and the processed count equals the total
  in two events, the one after the last chunk and the final one.
\<close>

theorem progress_complete_twice:
  "scanned (proj_host proj_tree) proj {''.git''} =
     [(joinpath proj ''a.txt'', 5), (joinpath (joinpath proj ''sub'') ''b.txt'', 10)] \<and>
   open_rb (proj_host proj_tree) (joinpath proj ''a.txt'') = Some 5 \<and>
   open_rb (proj_host proj_tree) (joinpath (joinpath proj ''sub'') ''b.txt'') = Some 10 \<and>
   snd (backup_streaming (proj_host proj_tree) proj backups ZIP_STORED None {''.git''} True) =
     Inr (joinpath backups ''proj-20240101-120000.zip'') \<and>
   progress_events
     (fst (backup_streaming (proj_host proj_tree) proj backups ZIP_STORED None {''.git''} True)) =
     [(5, 15), (15, 15), (15, 15)]"
  by (simp add: proj_scanned proj_run) (simp add: host_defs)

text \<open>
  C2, amended. In a successful run with a callback whose files deliver at the
  write pass the sizes the scan saw, the processed counts are non-decreasing
  and never exceed the total, and the final event reports the total as
  processed; the event before it, the one after the last chunk, already does,
  so that there are at least two events and the equality is not unique.
\<close>

theorem progress_monotone_and_complete:
  fixes h source dest_dir c l X
  defines "r \<equiv> backup_streaming h source dest_dir c l X True"
  defines "T \<equiv> snd (iter_files_with_size h source X)"
  assumes ok: "snd r = Inr ap"
    and same: "\<forall>(p, s) \<in> set (scanned h source X). open_rb h p = Some s"
  shows "sorted (map fst (progress_events (fst r))) \<and>
         (\<forall>(p, t) \<in> set (progress_events (fst r)). p \<le> T) \<and>
         2 \<le> length (progress_events (fst r)) \<and>
         last (progress_events (fst r)) = (T, T) \<and>
         last (butlast (progress_events (fst r))) = (T, T)"
proof (cases h source dest_dir c l X True rule: backup_streaming_cases)
  case invalid
  then show ?thesis using ok by (simp add: r_def)
next
  case mkdir
  then show ?thesis using ok by (simp add: r_def)
next
  case empty
  then show ?thesis using ok by (simp add: r_def)
next
  case (failed st e)
  then show ?thesis using ok by (simp add: r_def)
next
  case (written st)
  let ?evs = "progress_events (trace st)"
  have files: "fst (iter_files_with_size h source X) = map fst (scanned h source X)"
    and tot: "T = sum_list (map snd (scanned h source X))"
    by (simp_all add: T_def iter_files_with_size_scanned)
  have "run_inv True T (fst (write_files h source c l True T
          (fst (iter_files_with_size h source X)) (start h source dest_dir c l)))"
    by (rule write_files_inv[OF run_inv_start])
  then have inv: "run_inv True T st" using written(4) by (simp add: T_def)
  have "processed st = processed (start h source dest_dir c l) + sum_list (map snd (scanned h source X))"
    using written(4) same unfolding files by (rule write_files_processed)
  then have proc: "processed st = T" by (simp add: tot start_def)
  have pos: "0 < T" using written(3) by (simp add: T_def)
  from inv proc pos have ne: "?evs \<noteq> []" and lst: "fst (last ?evs) = T"
    and srt: "sorted (map fst ?evs)" and bnd: "\<forall>e \<in> set ?evs. fst e \<le> T \<and> snd e = T"
    by (simp_all add: run_inv_def)
  from ne bnd have "snd (last ?evs) = T" by simp
  with lst have last_eq: "last ?evs = (T, T)" by (simp add: prod_eq_iff)
  have r: "progress_events (fst r) = ?evs @ [(T, T)]"
    using written(5) by (simp add: r_def T_def progress_events_append)
  have "2 \<le> length (?evs @ [(T, T)])" using ne by (cases ?evs) simp_all
  moreover have "sorted (map fst (?evs @ [(T, T)]))"
    using srt bnd by (simp add: sorted_append)
  moreover have "\<forall>(p, t) \<in> set (?evs @ [(T, T)]). p \<le> T" using bnd by auto
  ultimately show ?thesis unfolding r using last_eq by simp
qed

text \<open>Witness: the concrete tree.\<close>

theorem progress_monotone_and_complete_witness:
  "snd (backup_streaming (proj_host proj_tree) proj backups ZIP_STORED None {''.git''} True) =
     Inr (joinpath backups ''proj-20240101-120000.zip'') \<and>
   snd (iter_files_with_size (proj_host proj_tree) proj {''.git''}) = 15 \<and>
   sorted (map fst (progress_events
     (fst (backup_streaming (proj_host proj_tree) proj backups ZIP_STORED None {''.git''} True)))) \<and>
   last (progress_events
     (fst (backup_streaming (proj_host proj_tree) proj backups ZIP_STORED None {''.git''} True))) =
     (15, 15) \<and>
   last (butlast (progress_events
     (fst (backup_streaming (proj_host proj_tree) proj backups ZIP_STORED None {''.git''} True)))) =
     (15, 15)"
proof -
  have ok: "snd (backup_streaming (proj_host proj_tree) proj backups ZIP_STORED None {''.git''} True) =
     Inr (joinpath backups ''proj-20240101-120000.zip'')"
    by (simp add: proj_run)
  have same: "\<forall>(p, s) \<in> set (scanned (proj_host proj_tree) proj {''.git''}).
      open_rb (proj_host proj_tree) p = Some s"
    by (simp add: proj_scanned) (simp add: host_defs)
  have T: "snd (iter_files_with_size (proj_host proj_tree) proj {''.git''}) = 15"
    by (simp add: iter_files_with_size_scanned proj_scanned)
  from progress_monotone_and_complete[OF ok same] ok T show ?thesis by simp
qed

section \<open>Entry names\<close>

text \<open>
  When the source is given in resolved form, has a name, and no component of
  a scanned file holds a backslash, the entry name of the file is the source's
  name and the components of the file below the source, joined by forward
  slashes, on a host with either separator.
\<close>

lemma replace_backslash_append:
  "replace_backslash (xs @ ys) = replace_backslash xs @ replace_backslash ys"
  by (simp add: replace_backslash_def)

lemma replace_backslash_clean: "CHR 0x5C \<notin> set x \<Longrightarrow> replace_backslash x = x"
  by (induction x) (auto simp: replace_backslash_def)

lemma replace_backslash_sep_join:
  "\<forall>x \<in> set xs. CHR 0x5C \<notin> set x \<Longrightarrow> s = CHR ''/'' \<or> s = CHR 0x5C \<Longrightarrow>
     replace_backslash (sep_join s xs) = sep_join CHR ''/'' xs"
proof (induction s xs rule: sep_join.induct)
  case (1 c)
  then show ?case by (simp add: replace_backslash_def)
next
  case (2 c x)
  then show ?case by (simp add: replace_backslash_clean)
next
  case (3 c x y ys)
  then have "replace_backslash (sep_join c (y # ys)) = sep_join CHR ''/'' (y # ys)" by simp
  moreover have "replace_backslash [c] = ''/''" using 3(3) by (auto simp: replace_backslash_def)
  moreover have "replace_backslash x = x" using 3(2) by (simp add: replace_backslash_clean)
  ultimately show ?case
    using replace_backslash_append[of x "c # sep_join c (y # ys)"]
      replace_backslash_append[of "[c]" "sep_join c (y # ys)"]
    by simp
qed

lemma entry_of_resolved_source:
  assumes res: "resolve h source = source"
    and nm: "name source \<noteq> []"
    and sc: "(p, s) \<in> set (scanned h source X)"
    and sp: "sep h = CHR ''/'' \<or> sep h = CHR 0x5C"
    and clean: "\<forall>x \<in> set (tail p). CHR 0x5C \<notin> set x"
  shows "\<exists>rel. below source p = Some rel \<and> rel \<noteq> [] \<and>
           entry_of h source p = Some (sep_join CHR ''/'' (name source # rel))"
proof -
  from scanned_clear[OF sc] res obtain rel where
    rel: "below source p = Some rel" "rel \<noteq> []"
    by (auto simp: file_clear_def split: option.splits)
  then have pre: "anchor p = anchor source" "take (length (tail source)) (tail p) = tail source"
    and r: "rel = drop (length (tail source)) (tail p)"
    by (auto simp: below_def split: if_splits)
  have tp: "tail p = tail source @ rel" using pre(2) r by (metis append_take_drop_id)
  have "tail source \<noteq> []" using nm by (auto simp: name_def)
  with clean tp have c2: "\<forall>x \<in> set (name source # rel). CHR 0x5C \<notin> set x"
    by (auto simp: name_def)
  have "entry_of h source p = Some (replace_backslash (sep_join (sep h) (name source # rel)))"
    using pre r nm by (simp add: entry_of_def relative_to_def entry_name_def Path_def joinrel_def
        str_path_def)
  also have "replace_backslash (sep_join (sep h) (name source # rel)) =
      sep_join CHR ''/'' (name source # rel)"
    using c2 sp by (rule replace_backslash_sep_join)
  finally show ?thesis using rel by simp
qed

text \<open>On a POSIX host a backslash inside a file name is rewritten too.\<close>

lemma backslash_in_posix_name:
  "entry_of (proj_host proj_tree) proj (joinpath proj [CHR ''a'', CHR 0x5C, CHR ''b'']) =
     Some ''proj/a/b''"
  by (simp add: entry_of_def relative_to_def entry_name_def Path_def joinrel_def str_path_def
      name_def replace_backslash_def host_defs)

text \<open>
  C4. The entry name of a scanned file should be the source's base name, a
  slash, and the path of the file relative to the source. The scan resolves
  the root, the write pass takes the path relative to the source as it was
  given: for the relative source \<^verbatim>\<open>proj\<close> in the working directory
  \<^verbatim>\<open>/home/u\<close> the scanned files are \<^verbatim>\<open>/home/u/proj/a.txt\<close> and
  \<^verbatim>\<open>/home/u/proj/sub/b.txt\<close>, \<^verbatim>\<open>relative_to\<close> raises on the first of them, and
  the run ends with that error, the archive opened and no entry written.
\<close>

theorem relative_source_not_in_subpath:
  "is_dir (proj_host proj_tree) proj_rel \<and>
   fst (iter_files_with_size (proj_host proj_tree) proj_rel {''.git''}) =
     [joinpath proj ''a.txt'', joinpath (joinpath proj ''sub'') ''b.txt''] \<and>
   relative_to (joinpath proj ''a.txt'') proj_rel = Inl NotInSubpath \<and>
   backup_streaming (proj_host proj_tree) proj_rel backups ZIP_STORED None {''.git''} True =
     ([Mkdir backups, Scan proj_rel,
       OpenArchive (joinpath backups ''proj-20240101-120000.zip'') ZIP_STORED None],
      Inl NotInSubpath)"
  by (simp add: backup_streaming_def is_dir_def host_defs proj_tree_def
      iter_files_with_size_def os_walk_def relative_to_def name_def archive_path_def)

end
